theory Spec2Isabelle
  imports Main "HOL-Library.Word" "HOL-Library.Sublist"
begin

unbundle bit_operations_syntax

section \<open>msp.js: the MSP V1 codec\<close>

text \<open>
  Bytes delivered by the serial port are the elements of a \<open>Uint8Array\<close>: 8-bit words.
  The operands and results of the JavaScript bitwise operators are 32-bit integers
  (\<open>ToInt32\<close>): 32-bit words, read back as a number with \<open>sint\<close>.
\<close>

type_synonym u8 = "8 word"
type_synonym int32 = "32 word"

subsection \<open>Parser state\<close>

datatype pstate = S_IDLE | S_HEADER_M | S_DIR | S_LEN | S_CMD | S_PAYLOAD | S_CHECKSUM

text \<open>
  The field \<open>payload\<close> holds a plain array (\<open>[]\<close>, set by the constructor) or a
  \<open>Uint8Array\<close> (allocated in \<open>S_LEN\<close>). A store beyond the end of a plain array
  extends it, leaving holes (\<open>None\<close>); a store beyond the end of a typed array is ignored.
\<close>

datatype buffer = JsArray "u8 option list" | Uint8Array "u8 list"

fun store :: "buffer \<Rightarrow> nat \<Rightarrow> u8 \<Rightarrow> buffer" where
  "store (Uint8Array xs) i c = Uint8Array (xs[i := c])"
| "store (JsArray xs) i c =
     (if i < length xs then JsArray (xs[i := Some c])
      else JsArray (xs @ replicate (i - length xs) None @ [Some c]))"

text \<open>The object \<open>{ cmd, payload }\<close> handed to \<open>onMessage\<close>.\<close>

datatype message = Message u8 buffer

text \<open>
  The fields of \<open>MspParser\<close>. \<open>len\<close> and \<open>payloadIdx\<close> are numbers that only
  count upwards from a byte value; \<open>checksum\<close> is only ever assigned a byte or the
  result of \<open>^=\<close>, a 32-bit integer. \<open>onMessage\<close> records whether a handler is
  registered (\<open>null\<close> is \<open>False\<close>); the calls made to the handler are returned by
  \<open>processByte\<close> and \<open>parse\<close> as the list of their arguments, in order.
\<close>

record MspParser =
  state :: pstate
  len :: nat
  cmd :: u8
  checksum :: int32
  payload :: buffer
  payloadIdx :: nat
  onMessage :: bool

definition MspParser_new :: MspParser where
  "MspParser_new =
     \<lparr>state = S_IDLE, len = 0, cmd = 0, checksum = 0, payload = JsArray [],
      payloadIdx = 0, onMessage = False\<rparr>"

definition reset :: "MspParser \<Rightarrow> MspParser" where
  "reset p = p\<lparr>state := S_IDLE\<rparr>"

definition processByte :: "MspParser \<Rightarrow> u8 \<Rightarrow> MspParser \<times> message list" where
  "processByte p c =
     (case state p of
        S_IDLE \<Rightarrow> ((if c = 0x24 then p\<lparr>state := S_HEADER_M\<rparr> else p), [])
      | S_HEADER_M \<Rightarrow> (p\<lparr>state := (if c = 0x4D then S_DIR else S_IDLE)\<rparr>, [])
      | S_DIR \<Rightarrow> ((if c = 0x3E then p\<lparr>state := S_LEN\<rparr> else p\<lparr>state := S_IDLE\<rparr>), [])
      | S_LEN \<Rightarrow>
          (p\<lparr>len := unat c, checksum := ucast c,
             payload := Uint8Array (replicate (unat c) 0), payloadIdx := 0,
             state := S_CMD\<rparr>, [])
      | S_CMD \<Rightarrow>
          (p\<lparr>cmd := c, checksum := checksum p XOR ucast c,
             state := (if len p > 0 then S_PAYLOAD else S_CHECKSUM)\<rparr>, [])
      | S_PAYLOAD \<Rightarrow>
          (let p1 = p\<lparr>payload := store (payload p) (payloadIdx p) c,
                        payloadIdx := payloadIdx p + 1,
                        checksum := checksum p XOR ucast c\<rparr>
           in ((if payloadIdx p1 \<ge> len p1 then p1\<lparr>state := S_CHECKSUM\<rparr> else p1), []))
      | S_CHECKSUM \<Rightarrow>
          (let p1 = p\<lparr>state := S_IDLE\<rparr>
           in (p1, (if checksum p1 AND 0xFF = ucast c \<and> onMessage p1
                    then [Message (cmd p1) (payload p1)] else []))))"

text \<open>\<open>parse(data)\<close>: every byte of the chunk, in order.\<close>

fun parse :: "MspParser \<Rightarrow> u8 list \<Rightarrow> MspParser \<times> message list" where
  "parse p [] = (p, [])"
| "parse p (c # cs) =
     (case processByte p c of (p1, out1) \<Rightarrow>
        (case parse p1 cs of (p2, out2) \<Rightarrow> (p2, out1 @ out2)))"

text \<open>
  The receive callback \<open>serial.onReceive = (data) => parser.parse(data)\<close>, called once
  per chunk the transport delivers, in order.
\<close>

fun parse_chunks :: "MspParser \<Rightarrow> u8 list list \<Rightarrow> MspParser \<times> message list" where
  "parse_chunks p [] = (p, [])"
| "parse_chunks p (d # ds) =
     (case parse p d of (p1, out1) \<Rightarrow>
        (case parse_chunks p1 ds of (p2, out2) \<Rightarrow> (p2, out1 @ out2)))"

subsection \<open>Encoder\<close>

text \<open>
  \<open>mspEncode(cmd)\<close> takes a number. On integers, \<open>(0 ^ cmd) & 0xFF\<close> is the low byte
  of \<open>cmd\<close> (\<open>ToInt32\<close> keeps the low 32 bits), and the \<open>Uint8Array\<close> constructor
  stores every element modulo 256, which is \<open>of_int\<close> into an 8-bit word.
\<close>

definition mspEncode :: "int \<Rightarrow> u8 list" where
  "mspEncode c =
     (let checksum = (0 XOR c) AND 0xFF
      in map of_int [0x24, 0x4D, 0x3C, 0x00, c, checksum])"

subsection \<open>Response frames on the wire\<close>

text \<open>
  The repository has no encoder for responses (the flight controller sends them). The
  frame the decoder is written for is \<open>$ M > len cmd payload checksum\<close>, the
  checksum being the XOR of the length byte, the command byte and the payload bytes.
\<close>

definition response_checksum :: "u8 \<Rightarrow> u8 list \<Rightarrow> u8" where
  "response_checksum c P = fold (\<lambda>b s. s XOR b) P (of_nat (length P) XOR c)"

definition response_frame :: "u8 \<Rightarrow> u8 list \<Rightarrow> u8 list" where
  "response_frame c P =
     [0x24, 0x4D, 0x3E, of_nat (length P), c] @ P @ [response_checksum c P]"

subsection \<open>Bounds of the payload store\<close>

text \<open>The length of a typed array; a plain array is not one.\<close>

fun typed_length :: "buffer \<Rightarrow> nat option" where
  "typed_length (Uint8Array xs) = Some (length xs)"
| "typed_length (JsArray xs) = None"

text \<open>
  What holds of the scratch fields between \<open>S_LEN\<close> and the end of the payload: the
  buffer is a \<open>Uint8Array\<close> of the declared length, the declared length is a byte, and
  in \<open>S_PAYLOAD\<close> the write index is below the declared length.
\<close>

definition payload_inv :: "MspParser \<Rightarrow> bool" where
  "payload_inv p =
     (case state p of
        S_CMD \<Rightarrow> typed_length (payload p) = Some (len p) \<and> payloadIdx p = 0 \<and> len p \<le> 255
      | S_PAYLOAD \<Rightarrow>
          typed_length (payload p) = Some (len p) \<and> payloadIdx p < len p \<and> len p \<le> 255
      | _ \<Rightarrow> True)"

text \<open>
  Two parsers agree on the state, on the handler and on every scratch field that the
  decoder can still read before it overwrites it: none in \<open>S_IDLE\<close> to \<open>S_LEN\<close>,
  all but \<open>cmd\<close> in \<open>S_CMD\<close>, all in \<open>S_PAYLOAD\<close> and \<open>S_CHECKSUM\<close>.
\<close>

definition same_live_fields :: "MspParser \<Rightarrow> MspParser \<Rightarrow> bool" where
  "same_live_fields a b =
     (state a = state b \<and> onMessage a = onMessage b \<and>
      (state a \<in> {S_CMD, S_PAYLOAD, S_CHECKSUM} \<longrightarrow>
         len a = len b \<and> checksum a = checksum b \<and> payload a = payload b \<and>
         payloadIdx a = payloadIdx b) \<and>
      (state a \<in> {S_PAYLOAD, S_CHECKSUM} \<longrightarrow> cmd a = cmd b))"

text \<open>
  The number of bytes of a stream the decoder consumes before it is in \<open>S_IDLE\<close>
  again (0 when it is there already, \<open>None\<close> when the stream ends first).
\<close>

fun bytes_to_idle :: "MspParser \<Rightarrow> u8 list \<Rightarrow> nat option" where
  "bytes_to_idle p [] = (if state p = S_IDLE then Some 0 else None)"
| "bytes_to_idle p (c # cs) =
     (if state p = S_IDLE then Some 0
      else map_option Suc (bytes_to_idle (fst (processByte p c)) cs))"

text \<open>
  A bound on that number, read off the state: the bytes a frame of the declared length
  still needs, and a whole frame of 255 payload bytes before the length is known.
\<close>

definition idle_bound :: "MspParser \<Rightarrow> nat" where
  "idle_bound p =
     (case state p of
        S_IDLE \<Rightarrow> 0
      | S_HEADER_M \<Rightarrow> 260
      | S_DIR \<Rightarrow> 259
      | S_LEN \<Rightarrow> 258
      | S_CMD \<Rightarrow> 257
      | S_PAYLOAD \<Rightarrow> len p - payloadIdx p + 1
      | S_CHECKSUM \<Rightarrow> 1)"

subsection \<open>Payload data view helpers\<close>

text \<open>
  \<open>payload[offset]\<close> on a \<open>Uint8Array\<close> (the argument \<open>pl\<close>): the byte, or
  \<open>undefined\<close> (\<open>None\<close>) out of range. The bitwise operators convert their
  operands with \<open>ToInt32\<close>, which sends \<open>undefined\<close> to 0, and return a 32-bit
  signed integer; \<open><<\<close> shifts within 32 bits. A number is an \<open>int\<close>.
\<close>

definition elem :: "u8 list \<Rightarrow> nat \<Rightarrow> u8 option" where
  "elem pl offset = (if offset < length pl then Some (pl ! offset) else None)"

definition ToInt32 :: "u8 option \<Rightarrow> int32" where
  "ToInt32 v = (case v of None \<Rightarrow> 0 | Some b \<Rightarrow> ucast b)"

definition readU8 :: "u8 list \<Rightarrow> nat \<Rightarrow> int option" where
  "readU8 pl offset = map_option uint (elem pl offset)"

definition readU16 :: "u8 list \<Rightarrow> nat \<Rightarrow> int" where
  "readU16 pl offset =
     sint (ToInt32 (elem pl offset) OR push_bit 8 (ToInt32 (elem pl (offset + 1))))"

definition readS16 :: "u8 list \<Rightarrow> nat \<Rightarrow> int" where
  "readS16 pl offset =
     (let val = readU16 pl offset in if val > 32767 then val - 65536 else val)"

definition readU32 :: "u8 list \<Rightarrow> nat \<Rightarrow> int" where
  "readU32 pl offset =
     sint (((ToInt32 (elem pl offset) OR push_bit 8 (ToInt32 (elem pl (offset + 1))))
            OR push_bit 16 (ToInt32 (elem pl (offset + 2))))
           OR push_bit 24 (ToInt32 (elem pl (offset + 3))))"

section \<open>cli.js: switching between MSP and CLI mode\<close>

text \<open>
  The module state: \<open>inCliMode\<close>, whether a text receiver is registered
  (\<open>onTextReceive\<close>), and the bytes of an incomplete sequence that the streaming
  \<open>TextDecoder\<close> holds back. The calls the functions make on their arguments and on the
  platform are returned as a list of effects, in order: \<open>serial.write(data)\<close>,
  \<open>switchReceiver()\<close>, \<open>sleep(ms)\<close> and \<open>onTextReceive(text)\<close>. The \<open>async\<close>
  functions are modelled run to completion, nothing else happening at their \<open>await\<close>s.
\<close>

datatype effect = Write "u8 list" | SwitchReceiver | Sleep nat | TextReceive string

record cli =
  inCliMode :: bool
  onTextReceive :: bool
  decoder :: "u8 list"

definition cli_init :: cli where
  "cli_init = \<lparr>inCliMode = False, onTextReceive = False, decoder = []\<rparr>"

text \<open>
  \<open>TextEncoder.encode\<close> on a string of ASCII characters: one byte per character.
  Strings are lists of such characters.
\<close>

definition encode :: "string \<Rightarrow> u8 list" where
  "encode s = map (\<lambda>ch. of_nat (of_char ch)) s"

definition crlf :: string where
  "crlf = [CHR 0x0D, CHR 0x0A]"

text \<open>
  \<open>cliParse(data)\<close>. The platform's \<open>decoder.decode(data, { stream: true })\<close> is the
  parameter \<open>decode\<close>: from the bytes held back and the chunk, the bytes held back
  afterwards and the decoded text.
\<close>

definition cliParse ::
  "(u8 list \<Rightarrow> u8 list \<Rightarrow> u8 list \<times> string) \<Rightarrow> cli \<Rightarrow> u8 list \<Rightarrow> cli \<times> effect list" where
  "cliParse decode s data =
     (if \<not> inCliMode s then (s, [])
      else (case decode (decoder s) data of (d, text) \<Rightarrow>
              (s\<lparr>decoder := d\<rparr>, (if onTextReceive s then [TextReceive text] else []))))"

definition setCliReceiver :: "bool \<Rightarrow> cli \<Rightarrow> cli" where
  "setCliReceiver cb s = s\<lparr>onTextReceive := cb\<rparr>"

definition sendCommand :: "string \<Rightarrow> effect list" where
  "sendCommand c = [Write (encode (c @ crlf))]"

definition enterCli :: "cli \<Rightarrow> cli \<times> effect list" where
  "enterCli s =
     (if inCliMode s then (s, [])
      else (s\<lparr>inCliMode := True\<rparr>, [SwitchReceiver, Write [0x23], Sleep 100]))"

definition exitCli :: "cli \<Rightarrow> cli \<times> effect list" where
  "exitCli s =
     (if \<not> inCliMode s then (s, [])
      else (s\<lparr>inCliMode := False\<rparr>, sendCommand ''exit'' @ [Sleep 200, SwitchReceiver]))"

definition cliReset :: "cli \<Rightarrow> cli" where
  "cliReset s = s\<lparr>inCliMode := False\<rparr>"

text \<open>The data of the \<open>serial.write\<close> calls among the effects, in order.\<close>

fun writes :: "effect list \<Rightarrow> u8 list list" where
  "writes [] = []"
| "writes (Write d # es) = d # writes es"
| "writes (e # es) = writes es"

text \<open>
  serial.js: \<open>write(data)\<close> hands the buffer to the port's writer, and returns at
  once when there is none (no port is open). \<open>written\<close> lists the buffers the writer
  got. \<open>perform\<close> makes the \<open>serial.write\<close> calls of a list of effects on a
  \<open>Serial\<close>.
\<close>

record Serial =
  writer :: bool
  written :: "u8 list list"

definition Serial_write :: "Serial \<Rightarrow> u8 list \<Rightarrow> Serial" where
  "Serial_write S data = (if \<not> writer S then S else S\<lparr>written := written S @ [data]\<rparr>)"

fun perform :: "effect list \<Rightarrow> Serial \<Rightarrow> Serial" where
  "perform [] S = S"
| "perform (Write d # es) S = perform es (Serial_write S d)"
| "perform (e # es) S = perform es S"

section \<open>tabs/terminal.js: capturing the reply to a command\<close>

subsection \<open>String methods\<close>

text \<open>
  \<open>indexOf\<close> and \<open>lastIndexOf\<close> return the first and the last position at which
  the pattern starts, or -1; \<open>includes\<close> (here \<open>str_includes\<close>) says whether there
  is one; \<open>substring(a, b)\<close> clamps both positions to the string and swaps them when
  \<open>a > b\<close>; \<open>substring(a)\<close> (here \<open>substring_from\<close>) runs to the end.
\<close>

fun indexOfFrom :: "string \<Rightarrow> string \<Rightarrow> int \<Rightarrow> int" where
  "indexOfFrom [] pat i = (if pat = [] then i else - 1)"
| "indexOfFrom (x # xs) pat i =
     (if prefix pat (x # xs) then i else indexOfFrom xs pat (i + 1))"

definition indexOf :: "string \<Rightarrow> string \<Rightarrow> int" where
  "indexOf s pat = indexOfFrom s pat 0"

fun lastIndexOfFrom :: "string \<Rightarrow> string \<Rightarrow> int \<Rightarrow> int \<Rightarrow> int" where
  "lastIndexOfFrom [] pat i r = (if pat = [] then i else r)"
| "lastIndexOfFrom (x # xs) pat i r =
     lastIndexOfFrom xs pat (i + 1) (if prefix pat (x # xs) then i else r)"

definition lastIndexOf :: "string \<Rightarrow> string \<Rightarrow> int" where
  "lastIndexOf s pat = lastIndexOfFrom s pat 0 (- 1)"

definition str_includes :: "string \<Rightarrow> string \<Rightarrow> bool" where
  "str_includes s pat = (indexOf s pat \<noteq> - 1)"

definition substring :: "string \<Rightarrow> int \<Rightarrow> int \<Rightarrow> string" where
  "substring s a b =
     (let n = int (length s);
          a1 = min (max a 0) n;
          b1 = min (max b 0) n;
          lo = min a1 b1;
          hi = max a1 b1
      in take (nat (hi - lo)) (drop (nat lo) s))"

definition substring_from :: "string \<Rightarrow> int \<Rightarrow> string" where
  "substring_from s a = substring s a (int (length s))"

subsection \<open>Capture state\<close>

text \<open>
  The module variables of the capture: \<open>captureBuffer\<close>, \<open>capturing\<close>, the deadline
  timer's handle \<open>captureTimer\<close> (\<open>null\<close> is \<open>None\<close>; the handles \<open>setTimeout\<close>
  returns are positive, hence truthy) and \<open>autoLoadPending\<close>. The effects are the calls
  \<open>clearTimeout(captureTimer)\<close>, \<open>appendOutput(text)\<close> and
  \<open>setTimeout(() => loadSettings(false, true), 0)\<close>, and the value of the local
  \<open>content\<close> of \<open>finishCapture\<close> once the prompt and the echo are stripped, which is
  what the rest of \<open>finishCapture\<close> splits into parameters and renders.
\<close>

datatype term_effect =
  ClearTimeout nat | Content string | AppendOutput string | DeferLoadSettings

record terminal =
  captureBuffer :: string
  capturing :: bool
  captureTimer :: "nat option"
  autoLoadPending :: bool

definition finishCapture :: "terminal \<Rightarrow> terminal \<times> term_effect list" where
  "finishCapture t =
     (let t1 = t\<lparr>capturing := False\<rparr>;
          cleared = (case captureTimer t1 of Some h \<Rightarrow> [ClearTimeout h] | None \<Rightarrow> []);
          t2 = t1\<lparr>captureTimer := None\<rparr>;
          content = captureBuffer t2;
          promptIdx = lastIndexOf content ''# '';
          content = (if promptIdx \<ge> 0 then substring content 0 promptIdx else content);
          echoEnd = indexOf content [CHR 0x0A];
          content = (if echoEnd \<ge> 0 \<and> str_includes (substring content 0 echoEnd) ''set''
                     then substring_from content (echoEnd + 1) else content)
      in (t2, cleared @ [Content content]))"

definition onCliText :: "terminal \<Rightarrow> string \<Rightarrow> terminal \<times> term_effect list" where
  "onCliText t text =
     (if capturing t then
        (let t1 = t\<lparr>captureBuffer := captureBuffer t @ text\<rparr>
         in if str_includes (captureBuffer t1) ''# '' then finishCapture t1 else (t1, []))
      else if autoLoadPending t \<and> str_includes text ''# ''
        then (t\<lparr>autoLoadPending := False\<rparr>, [AppendOutput text, DeferLoadSettings])
        else (t, [AppendOutput text]))"

text \<open>The callback of the deadline timer armed by \<open>loadSettings\<close>.\<close>

definition captureTimeout :: "terminal \<Rightarrow> terminal \<times> term_effect list" where
  "captureTimeout t = (if capturing t then finishCapture t else (t, []))"

section \<open>Properties of the encoder\<close>

text \<open>
  C2. For every command code \<open>c\<close> in [0,255], \<open>mspEncode c\<close> is exactly the six bytes
  0x24, 0x4D, 0x3C, 0x00, c, c: sync, 'M', request direction, length 0, the command
  byte and a checksum equal to the command byte. The bytes are compared as numbers.
\<close>

theorem mspEncode_bytes:
  assumes "0 \<le> c" and "c \<le> 255"
  shows "map uint (mspEncode c) = [0x24, 0x4D, 0x3C, 0x00, c, c]"
proof -
  have "take_bit 8 c = c"
    using assms by (simp add: take_bit_int_eq_self)
  then have m: "c AND 255 = c"
    by (simp add: take_bit_eq_mask mask_eq_exp_minus_1)
  have u: "uint (of_int c :: u8) = c"
    using assms by (simp add: uint_word_of_int)
  show ?thesis
    by (simp add: mspEncode_def Let_def m u)
qed

theorem mspEncode_bytes_witness:
  "(0::int) \<le> 108 \<and> (108::int) \<le> 255 \<and>
   map uint (mspEncode 108) = [0x24, 0x4D, 0x3C, 0x00, 0x6C, 0x6C]"
  using mspEncode_bytes [of 108] by simp

section \<open>Properties of the decoder\<close>

subsection \<open>Feeding a stream in pieces\<close>

lemma parse_append:
  "parse p (xs @ ys) =
     (case parse p xs of (p1, out1) \<Rightarrow>
        (case parse p1 ys of (p2, out2) \<Rightarrow> (p2, out1 @ out2)))"
  by (induction xs arbitrary: p) (simp_all split: prod.splits)

lemma parse_chunks_concat: "parse_chunks p ds = parse p (concat ds)"
  by (induction ds arbitrary: p) (simp_all add: parse_append split: prod.splits)

lemma snd_parse_Cons:
  "snd (parse p (c # cs)) = snd (processByte p c) @ snd (parse (fst (processByte p c)) cs)"
  by (simp split: prod.splits)

lemma fst_parse_Cons:
  "fst (parse p (c # cs)) = fst (parse (fst (processByte p c)) cs)"
  by (simp split: prod.splits)

lemma snd_parse_append:
  "snd (parse p (xs @ ys)) = snd (parse p xs) @ snd (parse (fst (parse p xs)) ys)"
  by (simp add: parse_append split: prod.splits)

lemma fst_parse_append:
  "fst (parse p (xs @ ys)) = fst (parse (fst (parse p xs)) ys)"
  by (simp add: parse_append split: prod.splits)

subsection \<open>One response frame, from \<open>S_IDLE\<close>\<close>

lemma payload_fill:
  assumes "state p = S_PAYLOAD"
    and "payload p = Uint8Array (A @ replicate (length R) 0)"
    and "payloadIdx p = length A"
    and "len p = length A + length R"
    and "R \<noteq> []"
  shows "parse p R =
           (p\<lparr>payload := Uint8Array (A @ R), payloadIdx := length A + length R,
              checksum := fold (\<lambda>b s. s XOR ucast b) R (checksum p),
              state := S_CHECKSUM\<rparr>, [])"
  using assms
proof (induction R arbitrary: p A)
  case Nil
  then show ?case by simp
next
  case (Cons c R)
  show ?case
  proof (cases "R = []")
    case True
    with Cons.prems show ?thesis
      by (simp add: processByte_def Let_def list_update_append)
  next
    case False
    let ?p1 = "p\<lparr>payload := Uint8Array ((A @ [c]) @ replicate (length R) 0),
                  payloadIdx := length (A @ [c]),
                  checksum := checksum p XOR ucast c\<rparr>"
    have step: "processByte p c = (?p1, [])"
      using Cons.prems False
      by (simp add: processByte_def Let_def list_update_append)
    have "parse ?p1 R =
           (?p1\<lparr>payload := Uint8Array ((A @ [c]) @ R),
                 payloadIdx := length (A @ [c]) + length R,
              checksum := fold (\<lambda>b s. s XOR ucast b) R (checksum ?p1),
              state := S_CHECKSUM\<rparr>, [])"
      using Cons.prems False by (intro Cons.IH) simp_all
    with step show ?thesis by simp
  qed
qed

lemma fold_xor_ucast:
  "fold (\<lambda>b s. s XOR ucast b) P (ucast (x :: u8) :: int32) = ucast (fold (\<lambda>b s. s XOR b) P x)"
  by (induction P arbitrary: x) (simp_all add: unsigned_xor_eq [symmetric])

lemma ucast_low_byte: "(ucast (x :: u8) :: int32) AND 0xFF = ucast x"
proof -
  have "(ucast x :: int32) AND mask 8 = ucast x"
    by (rule bit_word_eqI) (auto simp add: bit_simps dest: bit_imp_le_length)
  then show ?thesis by (simp add: mask_eq_exp_minus_1)
qed

lemma ucast_u8_inj: "((ucast (x :: u8) :: int32) = ucast y) = (x = y)"
proof
  assume eq: "(ucast x :: int32) = ucast y"
  show "x = y"
  proof (rule bit_word_eqI)
    fix n assume n: "n < LENGTH(8)"
    have "bit (ucast x :: int32) n = bit (ucast y :: int32) n"
      using eq by simp
    with n show "bit x n = bit y n"
      by (simp add: bit_simps)
  qed
qed simp

lemma parse_header:
  assumes "state p = S_IDLE"
  shows "parse p (0x24 # 0x4D # 0x3E # n # c # rest) =
           parse (p\<lparr>len := unat n, checksum := ucast n XOR ucast c,
                    payload := Uint8Array (replicate (unat n) 0), payloadIdx := 0,
                    cmd := c,
                    state := (if unat n > 0 then S_PAYLOAD else S_CHECKSUM)\<rparr>) rest"
  using assms by (cases p) (simp add: processByte_def split: prod.splits)

lemma parse_checksum_byte:
  assumes "state p = S_CHECKSUM"
  shows "parse p [x] =
           (p\<lparr>state := S_IDLE\<rparr>,
            (if checksum p AND 0xFF = ucast x \<and> onMessage p
             then [Message (cmd p) (payload p)] else []))"
  using assms by (simp add: processByte_def Let_def)

text \<open>
  A frame whose last byte is \<open>x\<close>: the message is delivered exactly when \<open>x\<close> is the
  checksum and a handler is registered, and the decoder is back in \<open>S_IDLE\<close> either way.
\<close>

lemma parse_frame_body:
  assumes "state p = S_IDLE" and "length P \<le> 255"
  shows "parse p ([0x24, 0x4D, 0x3E, of_nat (length P), c] @ P @ [x]) =
           (p\<lparr>len := length P, checksum := ucast (response_checksum c P),
              payload := Uint8Array P, payloadIdx := length P, cmd := c,
              state := S_IDLE\<rparr>,
            (if x = response_checksum c P \<and> onMessage p
             then [Message c (Uint8Array P)] else []))"
proof -
  have n: "unat (of_nat (length P) :: u8) = length P"
    using assms(2) by (simp add: unat_of_nat)
  let ?p5 = "p\<lparr>len := length P,
                checksum := ucast (of_nat (length P) :: u8) XOR ucast c,
                payload := Uint8Array (replicate (length P) 0), payloadIdx := 0,
                cmd := c,
                state := (if length P > 0 then S_PAYLOAD else S_CHECKSUM)\<rparr>"
  have hd: "parse p ([0x24, 0x4D, 0x3E, of_nat (length P), c] @ P @ [x]) = parse ?p5 (P @ [x])"
    using parse_header [OF assms(1), of "of_nat (length P)" c "P @ [x]"] by (simp add: n)
  have ck: "fold (\<lambda>b s. s XOR ucast b) P (ucast (of_nat (length P) :: u8) XOR ucast c)
              = (ucast (response_checksum c P) :: int32)"
    by (simp add: response_checksum_def fold_xor_ucast unsigned_xor_eq [symmetric])
  show ?thesis
  proof (cases "P = []")
    case True
    then show ?thesis
      using hd parse_checksum_byte [of ?p5 x] ck
      by (auto simp add: ucast_low_byte ucast_u8_inj)
  next
    case False
    have fill: "parse ?p5 P =
           (?p5\<lparr>payload := Uint8Array ([] @ P), payloadIdx := length ([] :: u8 list) + length P,
              checksum := fold (\<lambda>b s. s XOR ucast b) P (checksum ?p5),
              state := S_CHECKSUM\<rparr>, [])"
      using False by (intro payload_fill) simp_all
    show ?thesis
      using hd fill False ck
      by (auto simp add: parse_append processByte_def Let_def ucast_low_byte ucast_u8_inj)
  qed
qed

lemma parse_response_frame:
  assumes "state p = S_IDLE" and "length P \<le> 255"
  shows "snd (parse p (response_frame c P)) =
           (if onMessage p then [Message c (Uint8Array P)] else [])"
    and "state (fst (parse p (response_frame c P))) = S_IDLE"
    and "onMessage (fst (parse p (response_frame c P))) = onMessage p"
  using parse_frame_body [OF assms, of c "response_checksum c P"]
  by (simp_all add: response_frame_def)

lemma parse_corrupted_frame:
  assumes "state p = S_IDLE" and "length P \<le> 255" and "x \<noteq> response_checksum c P"
  shows "snd (parse p (butlast (response_frame c P) @ [x])) = []"
    and "state (fst (parse p (butlast (response_frame c P) @ [x]))) = S_IDLE"
    and "onMessage (fst (parse p (butlast (response_frame c P) @ [x]))) = onMessage p"
  using parse_frame_body [OF assms(1,2), of c x] assms(3)
  by (simp_all add: response_frame_def butlast_append)

text \<open>
  C1. For every command code \<open>c\<close> and every payload \<open>P\<close> of at most 255 bytes: the
  response frame for \<open>(c, P)\<close>, cut into chunks at arbitrary points and delivered in
  order to a decoder that is in \<open>S_IDLE\<close> and has a handler, causes exactly one call
  of the handler, with command \<open>c\<close> and payload exactly \<open>P\<close>, wherever the cuts are.
\<close>

theorem response_frame_chunked:
  assumes "state p = S_IDLE" and "onMessage p" and "length P \<le> 255"
    and "concat chunks = response_frame c P"
  shows "snd (parse_chunks p chunks) = [Message c (Uint8Array P)]"
proof -
  have "snd (parse_chunks p chunks) = snd (parse p (response_frame c P))"
    using assms(4) by (simp add: parse_chunks_concat)
  also have "\<dots> = [Message c (Uint8Array P)]"
    using parse_response_frame(1) [OF assms(1,3), of c] assms(2) by simp
  finally show ?thesis .
qed

theorem response_frame_chunked_witness:
  "state (MspParser_new\<lparr>onMessage := True\<rparr>) = S_IDLE \<and>
   onMessage (MspParser_new\<lparr>onMessage := True\<rparr>) \<and>
   length [1, 2 :: u8] \<le> 255 \<and>
   concat [[0x24, 0x4D], [], [0x3E, 2, 108, 1], [2, 109]] = response_frame 108 [1, 2] \<and>
   snd (parse_chunks (MspParser_new\<lparr>onMessage := True\<rparr>)
          [[0x24, 0x4D], [], [0x3E, 2, 108, 1], [2, 109]]) = [Message 108 (Uint8Array [1, 2])]"
proof -
  have f: "concat [[0x24, 0x4D], [], [0x3E, 2, 108, 1], [2, 109]] = response_frame 108 [1, 2]"
    by (simp add: response_frame_def response_checksum_def)
  have s: "state (MspParser_new\<lparr>onMessage := True\<rparr>) = S_IDLE"
    and h: "onMessage (MspParser_new\<lparr>onMessage := True\<rparr>)"
    by (simp_all add: MspParser_new_def)
  have l: "length [1, 2 :: u8] \<le> 255" by simp
  show ?thesis
    using response_frame_chunked [OF s h l f] f s h by simp
qed

subsection \<open>Checksum mismatch\<close>

text \<open>
  C5. In \<open>S_CHECKSUM\<close>, a byte that differs from the low 8 bits of the checksum
  accumulator drops the frame: the handler is not called and the decoder returns to
  \<open>S_IDLE\<close>. In particular a response frame whose checksum byte is replaced by another
  value yields no message and leaves the decoder in \<open>S_IDLE\<close>, and a valid frame fed
  right after it is decoded.
\<close>

theorem checksum_mismatch_dropped:
  assumes "state p = S_CHECKSUM" and "checksum p AND 0xFF \<noteq> ucast x"
    and "state q = S_IDLE" and "onMessage q"
    and "length P \<le> 255" and "y \<noteq> response_checksum c P" and "length P' \<le> 255"
  shows "processByte p x = (p\<lparr>state := S_IDLE\<rparr>, []) \<and>
         snd (parse q (butlast (response_frame c P) @ [y])) = [] \<and>
         state (fst (parse q (butlast (response_frame c P) @ [y]))) = S_IDLE \<and>
         snd (parse q ((butlast (response_frame c P) @ [y]) @ response_frame c' P')) =
           [Message c' (Uint8Array P')]"
proof -
  let ?bad = "butlast (response_frame c P) @ [y]"
  have 1: "processByte p x = (p\<lparr>state := S_IDLE\<rparr>, [])"
    using assms(1,2) by (simp add: processByte_def Let_def)
  have 2: "snd (parse q ?bad) = []"
    and 3: "state (fst (parse q ?bad)) = S_IDLE"
    and 4: "onMessage (fst (parse q ?bad)) = onMessage q"
    using parse_corrupted_frame [OF assms(3,5,6)] by simp_all
  have "snd (parse (fst (parse q ?bad)) (response_frame c' P')) = [Message c' (Uint8Array P')]"
    using parse_response_frame(1) [OF 3 assms(7), of c'] 4 assms(4) by simp
  moreover have "snd (parse q (?bad @ response_frame c' P')) =
      snd (parse q ?bad) @ snd (parse (fst (parse q ?bad)) (response_frame c' P'))"
    by (rule snd_parse_append)
  ultimately have 5: "snd (parse q (?bad @ response_frame c' P')) = [Message c' (Uint8Array P')]"
    using 2 by (simp only: append_Nil)
  from 1 2 3 5 show ?thesis by simp
qed

theorem checksum_mismatch_dropped_witness:
  "state (MspParser_new\<lparr>state := S_CHECKSUM, checksum := 5\<rparr>) = S_CHECKSUM \<and>
   checksum (MspParser_new\<lparr>state := S_CHECKSUM, checksum := 5\<rparr>) AND 0xFF \<noteq> ucast (6 :: u8) \<and>
   state (MspParser_new\<lparr>onMessage := True\<rparr>) = S_IDLE \<and>
   onMessage (MspParser_new\<lparr>onMessage := True\<rparr>) \<and>
   length [1, 2 :: u8] \<le> 255 \<and> (0 :: u8) \<noteq> response_checksum 108 [1, 2] \<and>
   length [7 :: u8] \<le> 255 \<and>
   processByte (MspParser_new\<lparr>state := S_CHECKSUM, checksum := 5\<rparr>) 6 =
     (MspParser_new\<lparr>state := S_CHECKSUM, checksum := 5, state := S_IDLE\<rparr>, []) \<and>
   snd (parse (MspParser_new\<lparr>onMessage := True\<rparr>)
          (butlast (response_frame 108 [1, 2]) @ [0])) = [] \<and>
   state (fst (parse (MspParser_new\<lparr>onMessage := True\<rparr>)
          (butlast (response_frame 108 [1, 2]) @ [0]))) = S_IDLE \<and>
   snd (parse (MspParser_new\<lparr>onMessage := True\<rparr>)
          ((butlast (response_frame 108 [1, 2]) @ [0]) @ response_frame 101 [7])) =
     [Message 101 (Uint8Array [7])]"
proof -
  have a: "state (MspParser_new\<lparr>state := S_CHECKSUM, checksum := 5\<rparr>) = S_CHECKSUM"
    by simp
  have b: "checksum (MspParser_new\<lparr>state := S_CHECKSUM, checksum := 5\<rparr>) AND 0xFF
             \<noteq> ucast (6 :: u8)"
    by simp
  have c: "state (MspParser_new\<lparr>onMessage := True\<rparr>) = S_IDLE"
    and d: "onMessage (MspParser_new\<lparr>onMessage := True\<rparr>)"
    by (simp_all add: MspParser_new_def)
  have e: "length [1, 2 :: u8] \<le> 255" and g: "length [7 :: u8] \<le> 255"
    by simp_all
  have f: "(0 :: u8) \<noteq> response_checksum 108 [1, 2]"
    by (simp add: response_checksum_def)
  show ?thesis
    using checksum_mismatch_dropped [OF a b c d e f g, of 101] a b c d e f g
    by simp
qed

subsection \<open>Reset\<close>

lemma same_live_fields_step:
  assumes "same_live_fields a b"
  shows "snd (processByte a c) = snd (processByte b c)"
    and "same_live_fields (fst (processByte a c)) (fst (processByte b c))"
  using assms
  by (cases "state a"; simp add: same_live_fields_def processByte_def Let_def)+

lemma same_live_fields_parse:
  "same_live_fields a b \<Longrightarrow> snd (parse a bs) = snd (parse b bs)"
proof (induction bs arbitrary: a b)
  case Nil
  then show ?case by simp
next
  case (Cons c bs)
  have "snd (parse (fst (processByte a c)) bs) = snd (parse (fst (processByte b c)) bs)"
    using Cons.IH same_live_fields_step(2) [OF Cons.prems] .
  then show ?case
    using same_live_fields_step(1) [OF Cons.prems, of c]
    by (simp only: snd_parse_Cons)
qed

lemma same_live_fields_after:
  "same_live_fields a b \<Longrightarrow> same_live_fields (fst (parse a bs)) (fst (parse b bs))"
proof (induction bs arbitrary: a b)
  case Nil
  then show ?case by simp
next
  case (Cons c bs)
  from Cons.IH [OF same_live_fields_step(2) [OF Cons.prems, of c]]
  show ?case by (simp only: fst_parse_Cons)
qed

text \<open>
  C8. After \<open>reset\<close> in any state, the parser emits for every further input exactly
  the messages a newly constructed parser (with the same handler registered) emits, and
  is in the same state afterwards, although \<open>reset\<close> only sets the state to
  \<open>S_IDLE\<close> and leaves the length, the checksum, the payload buffer and the write
  index as they were.
\<close>

theorem reset_like_new:
  "snd (parse (reset p) bs) = snd (parse (MspParser_new\<lparr>onMessage := onMessage p\<rparr>) bs) \<and>
   state (fst (parse (reset p) bs)) =
     state (fst (parse (MspParser_new\<lparr>onMessage := onMessage p\<rparr>) bs)) \<and>
   state (reset p) = S_IDLE \<and> len (reset p) = len p \<and> checksum (reset p) = checksum p \<and>
   payload (reset p) = payload p \<and> payloadIdx (reset p) = payloadIdx p"
proof -
  have "same_live_fields (reset p) (MspParser_new\<lparr>onMessage := onMessage p\<rparr>)"
    by (simp add: same_live_fields_def reset_def MspParser_new_def)
  then have "snd (parse (reset p) bs) =
               snd (parse (MspParser_new\<lparr>onMessage := onMessage p\<rparr>) bs)"
    and "state (fst (parse (reset p) bs)) =
           state (fst (parse (MspParser_new\<lparr>onMessage := onMessage p\<rparr>) bs))"
    using same_live_fields_after [of "reset p" "MspParser_new\<lparr>onMessage := onMessage p\<rparr>" bs]
    by (simp_all add: same_live_fields_parse same_live_fields_def)
  then show ?thesis
    by (simp add: reset_def)
qed

subsection \<open>The payload store stays in bounds\<close>

lemma typed_length_store:
  "typed_length b = Some n \<Longrightarrow> typed_length (store b i c) = Some n"
  by (cases b) simp_all

lemma payload_inv_step: "payload_inv p \<Longrightarrow> payload_inv (fst (processByte p c))"
proof (cases "state p")
  case S_LEN
  have "unat c \<le> 255"
    using unsigned_less [of c, where 'a = nat] by simp
  with S_LEN show ?thesis
    by (simp add: payload_inv_def processByte_def)
qed (auto simp add: payload_inv_def processByte_def Let_def typed_length_store)

lemma payload_inv_parse: "payload_inv p \<Longrightarrow> payload_inv (fst (parse p bs))"
proof (induction bs arbitrary: p)
  case Nil
  then show ?case by simp
next
  case (Cons c bs)
  from Cons.IH [OF payload_inv_step [OF Cons.prems, of c]]
  show ?case by (simp only: fst_parse_Cons)
qed

lemma payload_inv_idle: "state p = S_IDLE \<Longrightarrow> payload_inv p"
  by (simp add: payload_inv_def)

text \<open>
  C9. Whatever bytes \<open>bs\<close> a decoder has consumed since it was new or reset (since it
  was in \<open>S_IDLE\<close>): if it is then in \<open>S_PAYLOAD\<close>, so that the next byte is stored,
  the payload buffer is a \<open>Uint8Array\<close> of exactly the declared length and the write
  index is strictly below the declared length. The store is never out of bounds.
\<close>

theorem payload_store_in_bounds:
  assumes "state p = S_IDLE" and "state (fst (parse p bs)) = S_PAYLOAD"
  shows "typed_length (payload (fst (parse p bs))) = Some (len (fst (parse p bs))) \<and>
         payloadIdx (fst (parse p bs)) < len (fst (parse p bs))"
  using payload_inv_parse [OF payload_inv_idle [OF assms(1)], of bs] assms(2)
  by (simp add: payload_inv_def)

theorem payload_store_in_bounds_witness:
  "state (reset MspParser_new) = S_IDLE \<and>
   state (fst (parse (reset MspParser_new) [0x24, 0x4D, 0x3E, 2, 108, 7])) = S_PAYLOAD \<and>
   typed_length (payload (fst (parse (reset MspParser_new) [0x24, 0x4D, 0x3E, 2, 108, 7]))) =
     Some (len (fst (parse (reset MspParser_new) [0x24, 0x4D, 0x3E, 2, 108, 7]))) \<and>
   payloadIdx (fst (parse (reset MspParser_new) [0x24, 0x4D, 0x3E, 2, 108, 7])) <
     len (fst (parse (reset MspParser_new) [0x24, 0x4D, 0x3E, 2, 108, 7]))"
proof -
  have a: "state (reset MspParser_new) = S_IDLE"
    by (simp add: reset_def)
  have b: "state (fst (parse (reset MspParser_new) [0x24, 0x4D, 0x3E, 2, 108, 7])) = S_PAYLOAD"
    by (simp add: reset_def MspParser_new_def processByte_def)
  show ?thesis
    using payload_store_in_bounds [OF a b] a b by simp
qed

subsection \<open>Resynchronisation\<close>

lemma onMessage_processByte: "onMessage (fst (processByte p c)) = onMessage p"
  by (cases "state p") (simp_all add: processByte_def Let_def)

lemma onMessage_parse: "onMessage (fst (parse p bs)) = onMessage p"
  by (induction bs arbitrary: p) (simp_all add: fst_parse_Cons onMessage_processByte del: parse.simps(2))

lemma idle_bound_step:
  assumes "payload_inv p" and "state p \<noteq> S_IDLE"
  shows "idle_bound (fst (processByte p c)) < idle_bound p"
  using assms
  by (cases "state p") (auto simp add: idle_bound_def payload_inv_def processByte_def Let_def)

lemma idle_bound_zero: "idle_bound p = 0 \<Longrightarrow> state p = S_IDLE"
  by (cases "state p") (simp_all add: idle_bound_def)

lemma idle_bound_le: "payload_inv p \<Longrightarrow> idle_bound p \<le> 260"
  by (cases "state p") (auto simp add: idle_bound_def payload_inv_def)

lemma bytes_to_idle_bounded:
  assumes "payload_inv p" and "idle_bound p \<le> length bs"
  shows "\<exists>k. bytes_to_idle p bs = Some k \<and> k \<le> idle_bound p"
  using assms
proof (induction bs arbitrary: p)
  case Nil
  then show ?case by (simp add: idle_bound_zero)
next
  case (Cons c cs)
  show ?case
  proof (cases "state p = S_IDLE")
    case True
    then show ?thesis by simp
  next
    case False
    let ?q = "fst (processByte p c)"
    have less: "idle_bound ?q < idle_bound p"
      using Cons.prems(1) False by (rule idle_bound_step)
    have "payload_inv ?q"
      using Cons.prems(1) by (rule payload_inv_step)
    moreover have "idle_bound ?q \<le> length cs"
      using less Cons.prems(2) by simp
    ultimately obtain k where "bytes_to_idle ?q cs = Some k" and "k \<le> idle_bound ?q"
      using Cons.IH by blast
    with less False show ?thesis by simp
  qed
qed

text \<open>
  C3, as the code has it. From any state the decoder reaches from \<open>S_IDLE\<close> (by the
  bytes \<open>g1\<close>), it is in \<open>S_IDLE\<close> again after at most 260 further bytes, one frame's
  worth. And a valid response frame that starts when the decoder is in \<open>S_IDLE\<close>
  (after the bytes \<open>g\<close>) is decoded and delivered after whatever \<open>g\<close> delivered.
\<close>

theorem decoder_resync:
  assumes "state p = S_IDLE" and "onMessage p" and "length P \<le> 255"
  shows "(260 \<le> length bs \<longrightarrow>
            (case bytes_to_idle (fst (parse p g1)) bs of Some k \<Rightarrow> k \<le> 260 | None \<Rightarrow> False)) \<and>
         (state (fst (parse p g)) = S_IDLE \<longrightarrow>
            snd (parse p (g @ response_frame c P)) =
              snd (parse p g) @ [Message c (Uint8Array P)])"
proof (intro conjI impI)
  assume len: "260 \<le> length bs"
  let ?q = "fst (parse p g1)"
  have inv: "payload_inv ?q"
    using payload_inv_idle [OF assms(1)] by (rule payload_inv_parse)
  then have "idle_bound ?q \<le> length bs"
    using idle_bound_le [of ?q] len by simp
  with inv obtain k where "bytes_to_idle ?q bs = Some k" and "k \<le> idle_bound ?q"
    using bytes_to_idle_bounded by blast
  then show "case bytes_to_idle ?q bs of Some k \<Rightarrow> k \<le> 260 | None \<Rightarrow> False"
    using idle_bound_le [OF inv] by simp
next
  assume idle: "state (fst (parse p g)) = S_IDLE"
  have h: "onMessage (fst (parse p g)) = onMessage p"
    by (rule onMessage_parse)
  have "snd (parse (fst (parse p g)) (response_frame c P)) = [Message c (Uint8Array P)]"
    using parse_response_frame(1) [OF idle assms(3), of c] h assms(2) by simp
  then show "snd (parse p (g @ response_frame c P)) =
               snd (parse p g) @ [Message c (Uint8Array P)]"
    by (simp only: snd_parse_append)
qed

theorem decoder_resync_witness:
  "state (MspParser_new\<lparr>onMessage := True\<rparr>) = S_IDLE \<and>
   onMessage (MspParser_new\<lparr>onMessage := True\<rparr>) \<and>
   length [1, 2 :: u8] \<le> 255 \<and>
   260 \<le> length (replicate 260 (0 :: u8)) \<and>
   (case bytes_to_idle (fst (parse (MspParser_new\<lparr>onMessage := True\<rparr>)
                              [0x24, 0x4D, 0x3E, 0xFF]))
           (replicate 260 0) of Some k \<Rightarrow> k \<le> 260 | None \<Rightarrow> False) \<and>
   state (fst (parse (MspParser_new\<lparr>onMessage := True\<rparr>) [0x24, 0x00])) = S_IDLE \<and>
   snd (parse (MspParser_new\<lparr>onMessage := True\<rparr>) ([0x24, 0x00] @ response_frame 108 [1, 2])) =
     snd (parse (MspParser_new\<lparr>onMessage := True\<rparr>) [0x24, 0x00]) @
     [Message 108 (Uint8Array [1, 2])]"
proof -
  have s: "state (MspParser_new\<lparr>onMessage := True\<rparr>) = S_IDLE"
    and h: "onMessage (MspParser_new\<lparr>onMessage := True\<rparr>)"
    by (simp_all add: MspParser_new_def)
  have l: "length [1, 2 :: u8] \<le> 255" by simp
  have n: "260 \<le> length (replicate 260 (0 :: u8))" by simp
  have i: "state (fst (parse (MspParser_new\<lparr>onMessage := True\<rparr>) [0x24, 0x00])) = S_IDLE"
    by (simp add: MspParser_new_def processByte_def)
  show ?thesis
    using decoder_resync [OF s h l, of "replicate 260 0" "[0x24, 0x4D, 0x3E, 0xFF]"
        "[0x24, 0x00]" 108] s h l n i
    by blast
qed

text \<open>
  C3 as stated fails. The frame for command 108 with an empty payload is delivered when
  it is fed alone, and lost when a stray sync byte precedes it: the decoder, waiting for
  \<open>M\<close>, consumes the frame's own sync byte and then ignores the rest of the frame.
\<close>

theorem stray_sync_loses_frame:
  "snd (parse (MspParser_new\<lparr>onMessage := True\<rparr>) (response_frame 108 [])) =
     [Message 108 (Uint8Array [])] \<and>
   snd (parse (MspParser_new\<lparr>onMessage := True\<rparr>) ([0x24] @ response_frame 108 [])) = []"
  by (simp add: MspParser_new_def response_frame_def response_checksum_def processByte_def)

section \<open>Properties of the mode switch\<close>

lemma enterCli_telemetry:
  "\<not> inCliMode s \<Longrightarrow>
     enterCli s = (s\<lparr>inCliMode := True\<rparr>, [SwitchReceiver, Write [0x23], Sleep 100])"
  by (simp add: enterCli_def)

lemma exitCli_command:
  "inCliMode s \<Longrightarrow>
     exitCli s = (s\<lparr>inCliMode := False\<rparr>,
                  [Write [0x65, 0x78, 0x69, 0x74, 0x0D, 0x0A], Sleep 200, SwitchReceiver])"
  by (simp add: exitCli_def sendCommand_def encode_def crlf_def)

text \<open>
  C6. From Telemetry mode (\<open>inCliMode\<close> false), \<open>enterCli\<close> followed at once by
  \<open>exitCli\<close> leaves the module state as it was before, the mode being Telemetry
  again, and makes exactly two \<open>serial.write\<close> calls, in this order: the single byte
  0x23, then the bytes of \<open>exit\<close> followed by CR LF; on a \<open>Serial\<close> with an
  open port these two buffers, and no other, reach the port's writer.
  \<open>enterCli\<close> in CLI mode and \<open>exitCli\<close> in Telemetry mode do nothing: no
  effect and no change of state.
\<close>

theorem enter_then_exit:
  assumes "\<not> inCliMode s" and "inCliMode t" and "\<not> inCliMode u" and "writer S"
  shows "fst (exitCli (fst (enterCli s))) = s \<and>
         inCliMode (fst (enterCli s)) \<and>
         writes (snd (enterCli s) @ snd (exitCli (fst (enterCli s)))) =
           [[0x23], [0x65, 0x78, 0x69, 0x74, 0x0D, 0x0A]] \<and>
         written (perform (snd (enterCli s) @ snd (exitCli (fst (enterCli s)))) S) =
           written S @ [[0x23], [0x65, 0x78, 0x69, 0x74, 0x0D, 0x0A]] \<and>
         enterCli t = (t, []) \<and> exitCli u = (u, [])"
proof -
  have e: "enterCli s = (s\<lparr>inCliMode := True\<rparr>, [SwitchReceiver, Write [0x23], Sleep 100])"
    using assms(1) by (rule enterCli_telemetry)
  have x: "exitCli (s\<lparr>inCliMode := True\<rparr>) =
             (s\<lparr>inCliMode := True, inCliMode := False\<rparr>,
              [Write [0x65, 0x78, 0x69, 0x74, 0x0D, 0x0A], Sleep 200, SwitchReceiver])"
    by (simp add: exitCli_command)
  have restored: "s\<lparr>inCliMode := True, inCliMode := False\<rparr> = s"
    using assms(1) by (cases s) simp
  have "enterCli t = (t, [])"
    using assms(2) by (simp add: enterCli_def)
  moreover have "exitCli u = (u, [])"
    using assms(3) by (simp add: exitCli_def)
  ultimately show ?thesis
    using assms(4) by (simp add: e x restored Serial_write_def)
qed

theorem enter_then_exit_witness:
  "\<not> inCliMode cli_init \<and> inCliMode (cli_init\<lparr>inCliMode := True\<rparr>) \<and>
   writer \<lparr>writer = True, written = []\<rparr> \<and>
   fst (exitCli (fst (enterCli cli_init))) = cli_init \<and>
   inCliMode (fst (enterCli cli_init)) \<and>
   writes (snd (enterCli cli_init) @ snd (exitCli (fst (enterCli cli_init)))) =
     [[0x23], [0x65, 0x78, 0x69, 0x74, 0x0D, 0x0A]] \<and>
   written (perform (snd (enterCli cli_init) @ snd (exitCli (fst (enterCli cli_init))))
              \<lparr>writer = True, written = []\<rparr>) =
     [[0x23], [0x65, 0x78, 0x69, 0x74, 0x0D, 0x0A]] \<and>
   enterCli (cli_init\<lparr>inCliMode := True\<rparr>) = (cli_init\<lparr>inCliMode := True\<rparr>, []) \<and>
   exitCli cli_init = (cli_init, [])"
proof -
  have a: "\<not> inCliMode cli_init"
    by (simp add: cli_init_def)
  have b: "inCliMode (cli_init\<lparr>inCliMode := True\<rparr>)"
    by simp
  have c: "writer \<lparr>writer = True, written = []\<rparr>"
    by simp
  show ?thesis
    using enter_then_exit [OF a b a c] a b by simp
qed

text \<open>
  C10. A chunk delivered to \<open>cliParse\<close> while \<open>inCliMode\<close> is false is dropped: the
  text receiver is not called, nothing is decoded (the decoder keeps what it held), and
  the module state is unchanged.
\<close>

theorem cliParse_not_in_cli:
  assumes "\<not> inCliMode s"
  shows "cliParse decode s data = (s, [])"
  using assms by (simp add: cliParse_def)

theorem cliParse_not_in_cli_witness:
  "\<not> inCliMode (cli_init\<lparr>onTextReceive := True\<rparr>) \<and>
   cliParse (\<lambda>held bs. ([], map (\<lambda>b. char_of (unat b)) (held @ bs)))
     (cli_init\<lparr>onTextReceive := True\<rparr>) [0x6F, 0x6B] =
     (cli_init\<lparr>onTextReceive := True\<rparr>, [])"
proof -
  have a: "\<not> inCliMode (cli_init\<lparr>onTextReceive := True\<rparr>)"
    by (simp add: cli_init_def)
  show ?thesis
    using cliParse_not_in_cli [OF a] a by simp
qed

section \<open>Properties of the capture\<close>

lemma ok_includes_prompt:
  "str_includes [CHR ''o'', CHR ''k'', CHR 0x0D, CHR 0x0A, CHR ''#'', CHR '' ''] ''# ''"
  by (simp add: str_includes_def indexOf_def)

lemma ok_last_prompt:
  "lastIndexOf [CHR ''o'', CHR ''k'', CHR 0x0D, CHR 0x0A, CHR ''#'', CHR '' ''] ''# '' = 4"
  by (simp add: lastIndexOf_def)

lemma ok_cut_prompt:
  "substring [CHR ''o'', CHR ''k'', CHR 0x0D, CHR 0x0A, CHR ''#'', CHR '' ''] 0 4 =
     [CHR ''o'', CHR ''k'', CHR 0x0D, CHR 0x0A]"
  by (simp add: substring_def)

lemma ok_line_end: "indexOf [CHR ''o'', CHR ''k'', CHR 0x0D, CHR 0x0A] [CHR 0x0A] = 3"
  by (simp add: indexOf_def)

lemma ok_first_line:
  "substring [CHR ''o'', CHR ''k'', CHR 0x0D, CHR 0x0A] 0 3 = [CHR ''o'', CHR ''k'', CHR 0x0D]"
  by (simp add: substring_def)

lemma ok_no_echo: "\<not> str_includes [CHR ''o'', CHR ''k'', CHR 0x0D] ''set''"
  by (simp add: str_includes_def indexOf_def)

lemma finishCapture_ok:
  assumes "captureBuffer t = ''ok'' @ crlf @ ''# ''"
  shows "finishCapture t =
           (t\<lparr>capturing := False, captureTimer := None\<rparr>,
            (case captureTimer t of Some h \<Rightarrow> [ClearTimeout h] | None \<Rightarrow> []) @
            [Content (''ok'' @ crlf)])"
  unfolding finishCapture_def Let_def
  by (simp add: assms crlf_def ok_last_prompt ok_cut_prompt ok_line_end ok_first_line
      ok_no_echo)

text \<open>
  C7. A capture that is active when the chunk completing the text \<open>ok CR LF # \<close>
  arrives finishes in that very call of \<open>onCliText\<close>: \<open>capturing\<close> is cleared and the
  deadline timer, if armed, is cancelled, so that the deadline is not needed. The text
  is cut at the last prompt marker and the first line is kept (it holds no \<open>set\<close>):
  the cleaned text is \<open>ok CR LF\<close>. A deadline callback that still runs does nothing.
\<close>

theorem capture_ok_prompt:
  assumes "capturing t" and "captureBuffer t @ text = ''ok'' @ crlf @ ''# ''"
  shows "onCliText t text =
           (t\<lparr>captureBuffer := ''ok'' @ crlf @ ''# '', capturing := False,
              captureTimer := None\<rparr>,
            (case captureTimer t of Some h \<Rightarrow> [ClearTimeout h] | None \<Rightarrow> []) @
            [Content (''ok'' @ crlf)]) \<and>
         captureTimeout (fst (onCliText t text)) = (fst (onCliText t text), [])"
proof -
  let ?t1 = "t\<lparr>captureBuffer := captureBuffer t @ text\<rparr>"
  have buf: "captureBuffer ?t1 = ''ok'' @ crlf @ ''# ''"
    using assms(2) by simp
  have "onCliText t text = finishCapture ?t1"
    using assms(1) ok_includes_prompt by (simp add: onCliText_def Let_def assms(2) crlf_def)
  also have "\<dots> = (?t1\<lparr>capturing := False, captureTimer := None\<rparr>,
            (case captureTimer ?t1 of Some h \<Rightarrow> [ClearTimeout h] | None \<Rightarrow> []) @
            [Content (''ok'' @ crlf)])"
    using buf by (rule finishCapture_ok)
  finally have 1: "onCliText t text =
           (t\<lparr>captureBuffer := ''ok'' @ crlf @ ''# '', capturing := False,
              captureTimer := None\<rparr>,
            (case captureTimer t of Some h \<Rightarrow> [ClearTimeout h] | None \<Rightarrow> []) @
            [Content (''ok'' @ crlf)])"
    by (simp add: assms(2))
  show ?thesis
    unfolding 1 by (simp add: captureTimeout_def)
qed

theorem capture_ok_prompt_witness:
  "capturing \<lparr>captureBuffer = ''ok'', capturing = True, captureTimer = Some 7,
              autoLoadPending = False\<rparr> \<and>
   captureBuffer \<lparr>captureBuffer = ''ok'', capturing = True, captureTimer = Some 7,
                  autoLoadPending = False\<rparr> @ (crlf @ ''# '') = ''ok'' @ crlf @ ''# '' \<and>
   onCliText \<lparr>captureBuffer = ''ok'', capturing = True, captureTimer = Some 7,
              autoLoadPending = False\<rparr> (crlf @ ''# '') =
     (\<lparr>captureBuffer = ''ok'' @ crlf @ ''# '', capturing = False, captureTimer = None,
       autoLoadPending = False\<rparr>,
      [ClearTimeout 7, Content (''ok'' @ crlf)])"
proof -
  let ?t = "\<lparr>captureBuffer = ''ok'', capturing = True, captureTimer = Some 7,
             autoLoadPending = False\<rparr>"
  have a: "capturing ?t" by simp
  have b: "captureBuffer ?t @ (crlf @ ''# '') = ''ok'' @ crlf @ ''# ''" by simp
  show ?thesis
    using capture_ok_prompt [OF a b] by simp
qed

section \<open>Properties of the payload data view helpers\<close>

lemma or_push_bit_eq_add:
  fixes x y :: int
  assumes "0 \<le> x" and "x < 2 ^ n"
  shows "x OR push_bit n y = x + 2 ^ n * y"
proof -
  have "take_bit n x = x"
    using assms by (simp add: take_bit_int_eq_self)
  then have "x OR push_bit n y = concat_bit n x y"
    by (simp add: concat_bit_def)
  also have "\<dots> = take_bit n x + push_bit n y"
    by (rule concat_bit_eq)
  finally show ?thesis
    using \<open>take_bit n x = x\<close> by (simp add: push_bit_eq_mult)
qed

lemma uint_u8_le: "uint (a :: u8) \<le> 255"
  using uint_bounded [of a] by simp

lemma push_bit_ucast_u8:
  "push_bit n (ucast (b :: u8) :: int32) = word_of_int (push_bit n (uint b))"
  by (simp only: ucast_eq push_bit_of_int)

lemma join16:
  "(ucast (a :: u8) :: int32) OR push_bit 8 (ucast (b :: u8)) =
     word_of_int (uint a + 256 * uint b)"
proof -
  have "uint a OR push_bit 8 (uint b) = uint a + 2 ^ 8 * uint b"
    using uint_u8_le [of a] by (intro or_push_bit_eq_add) simp_all
  then have "word_of_int (uint a OR push_bit 8 (uint b)) =
               (word_of_int (uint a + 256 * uint b) :: int32)"
    by simp
  then show ?thesis
    by (simp only: push_bit_ucast_u8 ucast_eq [of a] word_wi_log_defs)
qed

lemma join32:
  "(((ucast (a :: u8) :: int32) OR push_bit 8 (ucast (b :: u8)))
      OR push_bit 16 (ucast (c :: u8))) OR push_bit 24 (ucast (d :: u8)) =
     word_of_int (uint a + 256 * uint b + 65536 * uint c + 16777216 * uint d)"
proof -
  let ?x = "uint a + 256 * uint b"
  let ?y = "?x + 65536 * uint c"
  have x0: "0 \<le> ?x" and x1: "?x < 65536"
    using uint_u8_le [of a] uint_u8_le [of b] uint_ge_0 [of a] uint_ge_0 [of b]
    by linarith+
  have y0: "0 \<le> ?y" and y1: "?y < 16777216"
    using x0 x1 uint_u8_le [of c] uint_ge_0 [of c] by linarith+
  have x: "0 \<le> ?x" "?x < 2 ^ 16"
    using x0 x1 by simp_all
  have y: "0 \<le> ?y" "?y < 2 ^ 24"
    using y0 y1 by simp_all
  have 1: "?x OR push_bit 16 (uint c) = ?y"
    using or_push_bit_eq_add [OF x, of "uint c"] by simp
  have 2: "?y OR push_bit 24 (uint d) = ?y + 16777216 * uint d"
    using or_push_bit_eq_add [OF y, of "uint d"] by simp
  have "(((ucast a :: int32) OR push_bit 8 (ucast b)) OR push_bit 16 (ucast c))
          OR push_bit 24 (ucast d) =
        word_of_int ((?x OR push_bit 16 (uint c)) OR push_bit 24 (uint d))"
    by (simp only: join16) (simp only: push_bit_ucast_u8 word_wi_log_defs)
  also have "(?x OR push_bit 16 (uint c)) OR push_bit 24 (uint d) = ?y + 16777216 * uint d"
    by (simp only: 1 2)
  finally show ?thesis .
qed

lemma ToInt32_elem:
  "offset < length pl \<Longrightarrow> ToInt32 (elem pl offset) = ucast (pl ! offset)"
  by (simp add: elem_def ToInt32_def)

lemma readU8_value:
  assumes "offset < length pl"
  shows "readU8 pl offset = Some (uint (pl ! offset))"
  using assms by (simp add: readU8_def elem_def)

lemma readU16_value:
  assumes "offset + 1 < length pl"
  shows "readU16 pl offset = uint (pl ! offset) + 256 * uint (pl ! (offset + 1))"
proof -
  let ?v = "uint (pl ! offset) + 256 * uint (pl ! (offset + 1))"
  have "- 2147483648 \<le> ?v" and "?v < 2147483648"
    using uint_u8_le [of "pl ! offset"] uint_u8_le [of "pl ! (offset + 1)"]
      uint_ge_0 [of "pl ! offset"] uint_ge_0 [of "pl ! (offset + 1)"]
    by linarith+
  then have b: "- (2 ^ 31) \<le> ?v" "?v < 2 ^ 31"
    by simp_all
  have e: "ToInt32 (elem pl offset) = ucast (pl ! offset)"
    "ToInt32 (elem pl (offset + 1)) = ucast (pl ! (offset + 1))"
    using assms by (simp_all add: ToInt32_elem)
  have "readU16 pl offset = sint (word_of_int ?v :: int32)"
    by (simp only: readU16_def e join16)
  also have "\<dots> = signed_take_bit 31 ?v"
    by (simp only: sint_sbintrunc') simp
  also have "\<dots> = ?v"
    using b by (rule signed_take_bit_int_eq_self)
  finally show ?thesis .
qed

lemma readU16_range:
  assumes "offset + 1 < length pl"
  shows "0 \<le> readU16 pl offset" and "readU16 pl offset \<le> 65535"
  unfolding readU16_value [OF assms]
  using uint_u8_le [of "pl ! offset"] uint_u8_le [of "pl ! (offset + 1)"]
    uint_ge_0 [of "pl ! offset"] uint_ge_0 [of "pl ! (offset + 1)"]
  by linarith+

lemma readS16_value:
  assumes "offset + 1 < length pl"
  shows "readS16 pl offset =
           (if readU16 pl offset > 32767 then readU16 pl offset - 65536
            else readU16 pl offset)"
    and "- 32768 \<le> readS16 pl offset" and "readS16 pl offset \<le> 32767"
proof -
  show "readS16 pl offset =
           (if readU16 pl offset > 32767 then readU16 pl offset - 65536
            else readU16 pl offset)"
    by (simp add: readS16_def Let_def)
  show "- 32768 \<le> readS16 pl offset"
    using readU16_range [OF assms] by (simp add: readS16_def Let_def)
  show "readS16 pl offset \<le> 32767"
    using readU16_range [OF assms] by (simp add: readS16_def Let_def)
qed

lemma int_mod_wrap:
  fixes x m :: int
  assumes "m \<le> x" and "x < 2 * m"
  shows "x mod m = x - m"
proof -
  have "(x - m) mod m = x mod m"
    by (rule minus_mod_self2)
  moreover have "(x - m) mod m = x - m"
    using assms by (intro mod_pos_pos_trivial) simp_all
  ultimately show ?thesis by simp
qed

text \<open>
  \<open>readU32\<close> returns the 32-bit value read as a signed integer: \<open>|\<close> and \<open><<\<close>
  yield a signed 32-bit result and nothing converts it back (no \<open>>>> 0\<close>).
\<close>

lemma readU32_value:
  assumes "offset + 3 < length pl"
  shows "readU32 pl offset =
           (let v = uint (pl ! offset) + 256 * uint (pl ! (offset + 1)) +
                    65536 * uint (pl ! (offset + 2)) + 16777216 * uint (pl ! (offset + 3))
            in if v \<ge> 2147483648 then v - 4294967296 else v)"
proof -
  let ?v = "uint (pl ! offset) + 256 * uint (pl ! (offset + 1)) +
            65536 * uint (pl ! (offset + 2)) + 16777216 * uint (pl ! (offset + 3))"
  have b: "0 \<le> ?v" "?v < 4294967296"
    using uint_u8_le [of "pl ! offset"] uint_u8_le [of "pl ! (offset + 1)"]
      uint_u8_le [of "pl ! (offset + 2)"] uint_u8_le [of "pl ! (offset + 3)"]
      uint_ge_0 [of "pl ! offset"] uint_ge_0 [of "pl ! (offset + 1)"]
      uint_ge_0 [of "pl ! (offset + 2)"] uint_ge_0 [of "pl ! (offset + 3)"]
    by linarith+
  have e: "ToInt32 (elem pl offset) = ucast (pl ! offset)"
    "ToInt32 (elem pl (offset + 1)) = ucast (pl ! (offset + 1))"
    "ToInt32 (elem pl (offset + 2)) = ucast (pl ! (offset + 2))"
    "ToInt32 (elem pl (offset + 3)) = ucast (pl ! (offset + 3))"
    using assms by (simp_all add: ToInt32_elem)
  have "readU32 pl offset = sint (word_of_int ?v :: int32)"
    by (simp only: readU32_def e join32)
  also have "\<dots> = (?v + 2147483648) mod 4294967296 - 2147483648"
    by (simp only: int_word_sint) simp
  also have "\<dots> = (if ?v \<ge> 2147483648 then ?v - 4294967296 else ?v)"
  proof (cases "?v \<ge> 2147483648")
    case True
    have "(?v + 2147483648) mod 4294967296 = ?v + 2147483648 - 4294967296"
      using True b by (intro int_mod_wrap) linarith+
    then show ?thesis using True by simp
  next
    case False
    have "(?v + 2147483648) mod 4294967296 = ?v + 2147483648"
      using False b by (intro mod_pos_pos_trivial) linarith+
    then show ?thesis using False by simp
  qed
  finally show ?thesis by (simp only: Let_def)
qed

text \<open>
  C4, at the input where the code departs from it. The four bytes 00 00 00 80 are the
  little-endian encoding of 2147483648; \<open>readU32\<close> returns -2147483648.
\<close>

theorem readU32_top_bit: "readU32 [0x00, 0x00, 0x00, 0x80] 0 = - 2147483648"
  by (simp add: readU32_def elem_def ToInt32_def)

end
